theory Spec2Isabelle
  imports Main "HOL-Library.Monad_Syntax"
begin

section \<open>The half-edge graph of geos: EdgeGraph.cpp\<close>

text \<open>
  The graph owns a store of half-edge records and a \<^verbatim>\<open>std::map\<close> from vertex
  coordinates to one half-edge leaving that vertex. A \<^verbatim>\<open>HalfEdge*\<close> is modelled as a
  handle into the store: \<open>Null\<close> for \<^verbatim>\<open>nullptr\<close>, \<open>Ptr i\<close> for the record created as
  number \<open>i\<close>. The store only grows, so a handle keeps its meaning.

  A function that dereferences pointers or walks a ring returns an \<open>option\<close>:
  \<open>None\<close> stands for every run that has no result in C++ (a null or dangling
  dereference, a failed assertion, a walk that never comes back to its start).
\<close>

subsection \<open>Coordinates\<close>

text \<open>
  Modelled from the spec: the class Coordinate (geos/geom/Coordinate.h) is not among
  the sources. The spec asks for "an opaque comparable point value (exact equality
  and a total order are required)", so a coordinate is any type of class
  \<open>linorder\<close>, and \<open>compareTo\<close> is the three-way comparison of that order.
\<close>

definition compareTo :: "'c::linorder \<Rightarrow> 'c \<Rightarrow> int" where
  "compareTo a b = (if a < b then - 1 else if b < a then 1 else 0)"

subsection \<open>Half-edges\<close>

datatype ptr = Null | Ptr nat

record 'c HalfEdge =
  he_orig :: 'c
  he_sym :: ptr
  he_next :: ptr

text \<open>
  Modelled from the spec: the class HalfEdge (HalfEdge.h, HalfEdge.cpp) is not among
  the sources. Its constructor yields an unlinked half-edge with the given origin.
\<close>

definition HalfEdge_new :: "'c \<Rightarrow> 'c HalfEdge" where
  "HalfEdge_new p_orig = \<lparr>he_orig = p_orig, he_sym = Null, he_next = Null\<rparr>"

definition deref :: "'c HalfEdge list \<Rightarrow> ptr \<Rightarrow> 'c HalfEdge option" where
  "deref h p = (case p of Null \<Rightarrow> None | Ptr i \<Rightarrow> if i < length h then Some (h ! i) else None)"

definition store :: "'c HalfEdge list \<Rightarrow> ptr \<Rightarrow> 'c HalfEdge \<Rightarrow> 'c HalfEdge list" where
  "store h p x = (case p of Null \<Rightarrow> h | Ptr i \<Rightarrow> h[i := x])"

text \<open>
  Modelled from the spec: HalfEdge::sym, the accessor of the companion half-edge.
\<close>

definition HalfEdge_sym :: "'c HalfEdge list \<Rightarrow> ptr \<Rightarrow> ptr option" where
  "HalfEdge_sym h self = do { e \<leftarrow> deref h self; Some (he_sym e) }"

text \<open>
  Modelled from the spec: HalfEdge::link "establishes a fresh sym-pair between two
  newly created, unlinked half-edges: sets each one's sym to the other and each
  one's next to itself (a ring of size one). Precondition: both half-edges are
  freshly created and unlinked." A violated precondition has no result.
\<close>

definition HalfEdge_link :: "'c HalfEdge list \<Rightarrow> ptr \<Rightarrow> ptr \<Rightarrow> 'c HalfEdge list option" where
  "HalfEdge_link h self other =
     do { a \<leftarrow> deref h self;
          b \<leftarrow> deref h other;
          if he_sym a = Null \<and> he_next a = Null \<and> he_sym b = Null \<and> he_next b = Null
          then Some (store (store h self (a\<lparr>he_sym := other, he_next := self\<rparr>))
                       other (b\<lparr>he_sym := self, he_next := other\<rparr>))
          else None }"

text \<open>
  Modelled from the spec: the loop of HalfEdge::find, which "walks next until it
  returns to the start or finds a match". A walk that never returns to the start and
  never finds a match has no result.
\<close>

partial_function (option) find_loop ::
  "'c HalfEdge list \<Rightarrow> ptr \<Rightarrow> ptr \<Rightarrow> 'c \<Rightarrow> ptr option" where
  "find_loop h start cur dest =
     do { e \<leftarrow> deref h cur;
          s \<leftarrow> deref h (he_sym e);
          if he_orig s = dest then Some cur
          else if he_next e = start then Some Null
          else find_loop h start (he_next e) dest }"

declare find_loop.simps [code]

text \<open>
  Modelled from the spec: HalfEdge::find "searches the rotation ring starting at self
  for a half-edge whose destination (i.e., sym.origin) equals the given coordinate.
  Returns the matching half-edge, or a not-found signal (null) if the ring contains
  no such edge."
\<close>

definition HalfEdge_find :: "'c HalfEdge list \<Rightarrow> ptr \<Rightarrow> 'c \<Rightarrow> ptr option" where
  "HalfEdge_find h self dest = find_loop h self self dest"

text \<open>
  Modelled from the spec: the rotation ring of a half-edge, "a cyclic singly-linked
  ring: following next repeatedly from any half-edge at a vertex eventually returns
  to it". \<open>ring_loop h start cur\<close> lists the members from \<open>cur\<close> up to the one whose
  \<open>next\<close> is \<open>start\<close>; a chain of \<open>next\<close> pointers that never closes has no result.
\<close>

partial_function (option) ring_loop ::
  "'c HalfEdge list \<Rightarrow> ptr \<Rightarrow> ptr \<Rightarrow> ptr list option" where
  "ring_loop h start cur =
     do { e \<leftarrow> deref h cur;
          if he_next e = start then Some [cur]
          else do { r \<leftarrow> ring_loop h start (he_next e); Some (cur # r) } }"

declare ring_loop.simps [code]

text \<open>
  Modelled from the spec: the splice of HalfEdge::insert, which "rewrites one or more
  next pointers among the ring members; never removes or duplicates an existing
  link": the new half-edge takes over the successor of \<open>self\<close> and becomes the
  successor of \<open>self\<close>.
\<close>

definition insertAfter :: "'c HalfEdge list \<Rightarrow> ptr \<Rightarrow> ptr \<Rightarrow> 'c HalfEdge list option" where
  "insertAfter h self e =
     do { a \<leftarrow> deref h self;
          b \<leftarrow> deref h e;
          let h1 = store h e (b\<lparr>he_next := he_next a\<rparr>);
          Some (store h1 self (a\<lparr>he_next := e\<rparr>)) }"

text \<open>
  Modelled from the spec: HalfEdge::insert "splices a new half-edge (whose origin
  equals self.origin) into self's rotation ring at the angular position consistent
  with the implied ordering; the ordering rule is externally defined. Precondition:
  newHalfEdge.origin == self.origin."

  The ordering rule is the parameter \<open>place\<close>: from the store, the ring of \<open>self\<close>
  (starting at \<open>self\<close>) and the new half-edge it computes how many \<open>next\<close> steps
  after \<open>self\<close> the ring member stands behind which the new half-edge goes. Every
  theorem below holds for every such rule. A violated precondition has no result.
\<close>

type_synonym 'c place = "'c HalfEdge list \<Rightarrow> ptr list \<Rightarrow> ptr \<Rightarrow> nat"

definition HalfEdge_insert ::
  "'c place \<Rightarrow> 'c HalfEdge list \<Rightarrow> ptr \<Rightarrow> ptr \<Rightarrow> 'c HalfEdge list option" where
  "HalfEdge_insert place h self eAdd =
     do { a \<leftarrow> deref h self;
          b \<leftarrow> deref h eAdd;
          ring \<leftarrow> ring_loop h self self;
          if he_orig a = he_orig b
          then insertAfter h (ring ! (place h ring eAdd mod length ring)) eAdd
          else None }"

subsection \<open>The vertex map\<close>

text \<open>
  \<^verbatim>\<open>std::map<Coordinate, HalfEdge*>\<close>: the entries in ascending key order, which is
  the order in which the map is iterated. \<open>map_find\<close> is \<^verbatim>\<open>find\<close> (\<open>None\<close> for
  \<^verbatim>\<open>end()\<close>), \<open>map_assign\<close> is \<^verbatim>\<open>m[k] = v\<close>.
\<close>

fun map_find :: "('k \<times> 'v) list \<Rightarrow> 'k \<Rightarrow> 'v option" where
  "map_find [] k = None"
| "map_find ((k', v') # m) k = (if k = k' then Some v' else map_find m k)"

fun map_assign :: "('k::linorder \<times> 'v) list \<Rightarrow> 'k \<Rightarrow> 'v \<Rightarrow> ('k \<times> 'v) list" where
  "map_assign [] k v = [(k, v)]"
| "map_assign ((k', v') # m) k v =
     (if k < k' then (k, v) # (k', v') # m
      else if k = k' then (k, v) # m
      else (k', v') # map_assign m k v)"

definition map_ok :: "('k::linorder \<times> 'v) list \<Rightarrow> bool" where
  "map_ok m = sorted_wrt (<) (map fst m)"

subsection \<open>EdgeGraph\<close>

record 'c EdgeGraph =
  edges :: "'c HalfEdge list"
  vertexMap :: "('c \<times> ptr) list"

definition empty_graph :: "'c EdgeGraph" where
  "empty_graph = \<lparr>edges = [], vertexMap = []\<rparr>"

text \<open>
  createEdge appends the new record to the store and returns its address. (Both
  branches of the \<^verbatim>\<open>EDGEGRAPH_HEAPHACK\<close> switch hand out the next free slot of a
  store that only grows.)
\<close>

definition createEdge :: "'c EdgeGraph \<Rightarrow> 'c \<Rightarrow> ptr \<times> 'c EdgeGraph" where
  "createEdge g p_orig =
     (Ptr (length (edges g)), g\<lparr>edges := edges g @ [HalfEdge_new p_orig]\<rparr>)"

definition create :: "'c EdgeGraph \<Rightarrow> 'c \<Rightarrow> 'c \<Rightarrow> (ptr \<times> 'c EdgeGraph) option" where
  "create g p0 p1 =
     (case createEdge g p0 of (e0, g0) \<Rightarrow>
      case createEdge g0 p1 of (e1, g1) \<Rightarrow>
        do { h \<leftarrow> HalfEdge_link (edges g1) e0 e1;
             Some (e0, g1\<lparr>edges := h\<rparr>) })"

definition isValidEdge :: "'c::linorder \<Rightarrow> 'c \<Rightarrow> bool" where
  "isValidEdge p_orig dest = (compareTo dest p_orig \<noteq> 0)"

definition EdgeGraph_insert ::
  "'c::linorder place \<Rightarrow> 'c EdgeGraph \<Rightarrow> 'c \<Rightarrow> 'c \<Rightarrow> ptr \<Rightarrow> (ptr \<times> 'c EdgeGraph) option" where
  "EdgeGraph_insert place g p_orig dest eAdj =
     do { (e, g1) \<leftarrow> create g p_orig dest;
          g2 \<leftarrow> (if eAdj \<noteq> Null
                 then do { h \<leftarrow> HalfEdge_insert place (edges g1) eAdj e;
                           Some (g1\<lparr>edges := h\<rparr>) }
                 else Some (g1\<lparr>vertexMap := map_assign (vertexMap g1) p_orig e\<rparr>));
          let eAdjDest = (case map_find (vertexMap g2) dest of None \<Rightarrow> Null | Some p \<Rightarrow> p);
          g3 \<leftarrow> (if eAdjDest \<noteq> Null
                 then do { s \<leftarrow> HalfEdge_sym (edges g2) e;
                           h \<leftarrow> HalfEdge_insert place (edges g2) eAdjDest s;
                           Some (g2\<lparr>edges := h\<rparr>) }
                 else do { s \<leftarrow> HalfEdge_sym (edges g2) e;
                           Some (g2\<lparr>vertexMap := map_assign (vertexMap g2) dest s\<rparr>) });
          Some (e, g3) }"

definition addEdge ::
  "'c::linorder place \<Rightarrow> 'c EdgeGraph \<Rightarrow> 'c \<Rightarrow> 'c \<Rightarrow> (ptr \<times> 'c EdgeGraph) option" where
  "addEdge place g p_orig dest =
     (if \<not> isValidEdge p_orig dest then Some (Null, g)
      else
        let eAdj = (case map_find (vertexMap g) p_orig of None \<Rightarrow> Null | Some p \<Rightarrow> p) in
        do { eSame \<leftarrow> (if eAdj \<noteq> Null then HalfEdge_find (edges g) eAdj dest else Some Null);
             if eSame \<noteq> Null then Some (eSame, g)
             else EdgeGraph_insert place g p_orig dest eAdj })"

definition getVertexEdges :: "'c EdgeGraph \<Rightarrow> ptr list \<Rightarrow> ptr list \<times> 'c EdgeGraph" where
  "getVertexEdges g edgesOut =
     (fold (\<lambda>it out. out @ [snd it]) (vertexMap g) edgesOut, g)"

definition findEdge :: "'c EdgeGraph \<Rightarrow> 'c \<Rightarrow> 'c \<Rightarrow> ptr option" where
  "findEdge g p_orig dest =
     (let e = (case map_find (vertexMap g) p_orig of None \<Rightarrow> Null | Some p \<Rightarrow> p) in
      if e = Null then Some Null
      else HalfEdge_find (edges g) e dest)"

text \<open>A caller that adds a list of edges, one \<open>addEdge\<close> call after the other.\<close>

fun addEdges ::
  "'c::linorder place \<Rightarrow> 'c EdgeGraph \<Rightarrow> ('c \<times> 'c) list \<Rightarrow> 'c EdgeGraph option" where
  "addEdges place g [] = Some g"
| "addEdges place g ((p_orig, dest) # ops) =
     (case addEdge place g p_orig dest of
        None \<Rightarrow> None
      | Some (e, g') \<Rightarrow> addEdges place g' ops)"

section \<open>Notions used in the proofs\<close>

subsection \<open>Bounded walks\<close>

text \<open>
  The two loops with a bound on the number of steps. A bounded walk that has a result
  is a run of the loop with the same result (\<open>find_walk_loop\<close>, \<open>ring_walk_loop\<close>
  below); this is how the loops are shown to return, and how they are evaluated on
  concrete stores.
\<close>

fun find_walk :: "'c HalfEdge list \<Rightarrow> nat \<Rightarrow> ptr \<Rightarrow> ptr \<Rightarrow> 'c \<Rightarrow> ptr option" where
  "find_walk h 0 start cur dest = None"
| "find_walk h (Suc fuel) start cur dest =
     do { e \<leftarrow> deref h cur;
          s \<leftarrow> deref h (he_sym e);
          if he_orig s = dest then Some cur
          else if he_next e = start then Some Null
          else find_walk h fuel start (he_next e) dest }"

fun ring_walk :: "'c HalfEdge list \<Rightarrow> nat \<Rightarrow> ptr \<Rightarrow> ptr \<Rightarrow> ptr list option" where
  "ring_walk h 0 start cur = None"
| "ring_walk h (Suc fuel) start cur =
     do { e \<leftarrow> deref h cur;
          if he_next e = start then Some [cur]
          else do { r \<leftarrow> ring_walk h fuel start (he_next e); Some (cur # r) } }"

subsection \<open>Rings in the store\<close>

text \<open>
  \<open>dest_of h i\<close> is the destination of half-edge \<open>i\<close>: the origin of its \<open>sym\<close>.
\<close>

fun addr :: "ptr \<Rightarrow> nat" where
  "addr (Ptr i) = i"
| "addr Null = 0"

definition dest_of :: "'c HalfEdge list \<Rightarrow> nat \<Rightarrow> 'c" where
  "dest_of h i = he_orig (h ! addr (he_sym (h ! i)))"

text \<open>
  \<open>chain h ps q\<close>: every member of \<open>ps\<close> has the next list member as its \<open>next\<close>,
  the last one has \<open>q\<close>. \<open>is_ring h ps\<close>: the distinct half-edges \<open>ps\<close> form one
  \<open>next\<close> cycle.
\<close>

fun chain :: "'c HalfEdge list \<Rightarrow> nat list \<Rightarrow> nat \<Rightarrow> bool" where
  "chain h [] q = True"
| "chain h (p # ps) q = (p < length h \<and> he_next (h ! p) = Ptr (hd (ps @ [q])) \<and> chain h ps q)"

definition is_ring :: "'c HalfEdge list \<Rightarrow> nat list \<Rightarrow> bool" where
  "is_ring h ps = (ps \<noteq> [] \<and> distinct ps \<and> chain h ps (hd ps))"

subsection \<open>The invariant of the graph\<close>

text \<open>
  \<open>linked\<close>: every half-edge has a \<open>sym\<close>, which points back and starts at another
  vertex. \<open>no_dup\<close>: no two half-edges have the same origin and destination.
\<close>

definition linked :: "'c HalfEdge list \<Rightarrow> bool" where
  "linked h = (\<forall>i<length h. \<exists>j<length h.
      he_sym (h ! i) = Ptr j \<and> he_sym (h ! j) = Ptr i \<and> he_orig (h ! j) \<noteq> he_orig (h ! i))"

definition no_dup :: "'c HalfEdge list \<Rightarrow> bool" where
  "no_dup h = (\<forall>i<length h. \<forall>j<length h.
      he_orig (h ! i) = he_orig (h ! j) \<and> dest_of h i = dest_of h j \<longrightarrow> i = j)"

text \<open>
  While \<open>EdgeGraph::insert\<close> runs, the half-edges just created are in the store but
  not yet in a ring of the vertex map: the set \<open>P\<close> of pending half-edges, each one
  a ring of size one. Between two calls of \<open>addEdge\<close> the set \<open>P\<close> is empty.

  \<open>rings_ok\<close>: the vertex map sends every key to the first member of a ring that
  holds exactly the half-edges leaving the key, the pending ones apart.
  \<open>keys_ok\<close>: the origin of every half-edge that is not pending is a key.
\<close>

definition members :: "'c HalfEdge list \<Rightarrow> 'c \<Rightarrow> nat set \<Rightarrow> nat set" where
  "members h v P = {i. i < length h \<and> he_orig (h ! i) = v \<and> i \<notin> P}"

definition rings_ok :: "'c EdgeGraph \<Rightarrow> nat set \<Rightarrow> bool" where
  "rings_ok g P = (\<forall>v p. map_find (vertexMap g) v = Some p \<longrightarrow>
      (\<exists>ps. p = Ptr (hd ps) \<and> is_ring (edges g) ps \<and> set ps = members (edges g) v P))"

definition keys_ok :: "'c EdgeGraph \<Rightarrow> nat set \<Rightarrow> bool" where
  "keys_ok g P = (\<forall>i<length (edges g). i \<notin> P \<longrightarrow>
      map_find (vertexMap g) (he_orig (edges g ! i)) \<noteq> None)"

definition pending_ok :: "'c HalfEdge list \<Rightarrow> nat set \<Rightarrow> bool" where
  "pending_ok h P = (\<forall>i\<in>P. i < length h \<and> he_next (h ! i) = Ptr i)"

definition wfP :: "'c::linorder EdgeGraph \<Rightarrow> nat set \<Rightarrow> bool" where
  "wfP g P = (map_ok (vertexMap g) \<and> linked (edges g) \<and> no_dup (edges g) \<and>
      rings_ok g P \<and> keys_ok g P \<and> pending_ok (edges g) P)"

text \<open>What \<open>create\<close>, the splice and one branch of \<open>EdgeGraph::insert\<close> do to the state.\<close>

definition fresh_pair :: "'c HalfEdge list \<Rightarrow> 'c \<Rightarrow> 'c \<Rightarrow> 'c HalfEdge list" where
  "fresh_pair h p0 p1 =
     h @ [\<lparr>he_orig = p0, he_sym = Ptr (Suc (length h)), he_next = Ptr (length h)\<rparr>,
          \<lparr>he_orig = p1, he_sym = Ptr (length h), he_next = Ptr (Suc (length h))\<rparr>]"

definition splice :: "'c HalfEdge list \<Rightarrow> nat \<Rightarrow> nat \<Rightarrow> 'c HalfEdge list" where
  "splice h a e = (h[e := (h ! e)\<lparr>he_next := he_next (h ! a)\<rparr>])[a := (h ! a)\<lparr>he_next := Ptr e\<rparr>]"

definition same_edges :: "'c HalfEdge list \<Rightarrow> 'c HalfEdge list \<Rightarrow> bool" where
  "same_edges h' h = (length h' = length h \<and>
      (\<forall>j. he_orig (h' ! j) = he_orig (h ! j) \<and> he_sym (h' ! j) = he_sym (h ! j)))"

definition attach ::
  "'c::linorder place \<Rightarrow> 'c EdgeGraph \<Rightarrow> 'c \<Rightarrow> ptr \<Rightarrow> 'c EdgeGraph option" where
  "attach place g v e =
     (let eAdj = (case map_find (vertexMap g) v of None \<Rightarrow> Null | Some p \<Rightarrow> p) in
      if eAdj \<noteq> Null
      then do { h \<leftarrow> HalfEdge_insert place (edges g) eAdj e; Some (g\<lparr>edges := h\<rparr>) }
      else Some (g\<lparr>vertexMap := map_assign (vertexMap g) v e\<rparr>))"

subsection \<open>Edges of a graph and of a history of calls\<close>

definition edge_set :: "'c HalfEdge list \<Rightarrow> ('c \<times> 'c) set" where
  "edge_set h = (\<lambda>i. (he_orig (h ! i), dest_of h i)) ` {..<length h}"

definition sym_edge :: "'c \<Rightarrow> 'c \<Rightarrow> ('c \<times> 'c) set" where
  "sym_edge a b = (if a = b then {} else {(a, b), (b, a)})"

definition inserted :: "('c \<times> 'c) list \<Rightarrow> ('c \<times> 'c) set" where
  "inserted ops = {(a, b). a \<noteq> b \<and> ((a, b) \<in> set ops \<or> (b, a) \<in> set ops)}"

text \<open>
  \<open>half_edge h p a b\<close>: \<open>p\<close> points to a half-edge of the store with origin \<open>a\<close> and
  destination \<open>b\<close>. \<open>follow h k p\<close>: the half-edge reached from \<open>p\<close> by \<open>k\<close> steps
  along \<open>next\<close>. \<open>degree ops v\<close>: the number of distinct edges at \<open>v\<close> among the
  calls \<open>ops\<close>, degenerate edges not counted.
\<close>

definition half_edge :: "'c HalfEdge list \<Rightarrow> ptr \<Rightarrow> 'c \<Rightarrow> 'c \<Rightarrow> bool" where
  "half_edge h p a b =
     (case deref h p of
        None \<Rightarrow> False
      | Some e \<Rightarrow> he_orig e = a \<and>
          (case deref h (he_sym e) of None \<Rightarrow> False | Some s \<Rightarrow> he_orig s = b))"

fun follow :: "'c HalfEdge list \<Rightarrow> nat \<Rightarrow> ptr \<Rightarrow> ptr option" where
  "follow h 0 p = Some p"
| "follow h (Suc k) p = do { e \<leftarrow> deref h p; follow h k (he_next e) }"

fun neighbours :: "('c \<times> 'c) list \<Rightarrow> 'c \<Rightarrow> 'c list" where
  "neighbours [] v = []"
| "neighbours ((a, b) # ops) v =
     (if a \<noteq> b \<and> a = v then [b] else if a \<noteq> b \<and> b = v then [a] else []) @ neighbours ops v"

definition degree :: "('c \<times> 'c) list \<Rightarrow> 'c \<Rightarrow> nat" where
  "degree ops v = length (remdups (neighbours ops v))"

subsection \<open>A concrete graph\<close>

text \<open>
  Four calls on the vertices 0, 1 and 2 (one of them degenerate), with the ordering
  rule that always answers 1, and the graph they build.
\<close>

definition place0 :: "nat place" where
  "place0 h r e = 1"

definition ops0 :: "(nat \<times> nat) list" where
  "ops0 = [(0, 1), (0, 2), (1, 1), (2, 1)]"

definition graph0 :: "nat EdgeGraph" where
  "graph0 = \<lparr>edges =
     [\<lparr>he_orig = 0, he_sym = Ptr 1, he_next = Ptr 2\<rparr>,
      \<lparr>he_orig = 1, he_sym = Ptr 0, he_next = Ptr 5\<rparr>,
      \<lparr>he_orig = 0, he_sym = Ptr 3, he_next = Ptr 0\<rparr>,
      \<lparr>he_orig = 2, he_sym = Ptr 2, he_next = Ptr 4\<rparr>,
      \<lparr>he_orig = 2, he_sym = Ptr 5, he_next = Ptr 3\<rparr>,
      \<lparr>he_orig = 1, he_sym = Ptr 4, he_next = Ptr 1\<rparr>],
     vertexMap = [(0, Ptr 0), (1, Ptr 1), (2, Ptr 3)]\<rparr>"

section \<open>Lemmas\<close>

subsection \<open>Walks along a chain\<close>

lemma find_walk_loop:
  "find_walk h n start cur dest = Some r \<Longrightarrow> find_loop h start cur dest = Some r"
proof (induction n arbitrary: cur)
  case 0
  then show ?case by simp
next
  case (Suc n)
  show ?case
    using Suc.prems Suc.IH
    by (subst find_loop.simps) (auto split: Option.bind_splits if_splits)
qed

lemma ring_walk_loop:
  "ring_walk h n start cur = Some r \<Longrightarrow> ring_loop h start cur = Some r"
proof (induction n arbitrary: cur r)
  case 0
  then show ?case by simp
next
  case (Suc n)
  show ?case
    using Suc.prems Suc.IH
    by (subst ring_loop.simps) (auto split: Option.bind_splits if_splits)
qed

lemma find_loop_eval:
  "find_walk h (length h) start cur dest \<noteq> None \<Longrightarrow>
   find_loop h start cur dest = find_walk h (length h) start cur dest"
  by (auto dest: find_walk_loop)

lemma ring_loop_eval:
  "ring_walk h (length h) start cur \<noteq> None \<Longrightarrow>
   ring_loop h start cur = ring_walk h (length h) start cur"
  by (auto dest: ring_walk_loop)

lemma deref_Ptr: "deref h (Ptr i) = (if i < length h then Some (h ! i) else None)"
  by (simp add: deref_def)

lemma deref_Null: "deref h Null = None"
  by (simp add: deref_def)

lemma chain_append: "chain h (xs @ ys) q = (chain h xs (hd (ys @ [q])) \<and> chain h ys q)"
proof (induction xs)
  case Nil
  show ?case by simp
next
  case (Cons x xs)
  have "hd (xs @ ys @ [q]) = hd (xs @ [hd (ys @ [q])])"
    by (cases xs) simp_all
  with Cons show ?case by auto
qed

lemma chain_bound: "chain h ps q \<Longrightarrow> p \<in> set ps \<Longrightarrow> p < length h"
  by (induction ps) auto

lemma chain_cong:
  assumes "length h' = length h"
    and "\<And>p. p \<in> set ps \<Longrightarrow> he_next (h' ! p) = he_next (h ! p)"
  shows "chain h' ps q = chain h ps q"
  using assms by (induction ps) auto

lemma chain_grow:
  assumes "chain h ps q"
  shows "chain (h @ xs) ps q"
  using assms by (induction ps) (auto simp: nth_append)

lemma chain_nth:
  "chain h ps q \<Longrightarrow> i < length ps \<Longrightarrow> he_next (h ! (ps ! i)) = Ptr ((ps @ [q]) ! Suc i)"
proof (induction ps arbitrary: i)
  case Nil
  then show ?case by simp
next
  case (Cons p ps)
  show ?case
  proof (cases i)
    case 0
    with Cons.prems show ?thesis by (cases ps) auto
  next
    case (Suc k)
    with Cons show ?thesis by auto
  qed
qed

lemma ring_walk_chain:
  "chain h (c # ps) s \<Longrightarrow> s \<notin> set ps \<Longrightarrow> length ps < fuel \<Longrightarrow>
   ring_walk h fuel (Ptr s) (Ptr c) = Some (map Ptr (c # ps))"
proof (induction ps arbitrary: c fuel)
  case Nil
  then obtain n where "fuel = Suc n" by (cases fuel) auto
  with Nil show ?case by (simp add: deref_Ptr)
next
  case (Cons p ps)
  then obtain n where n: "fuel = Suc n" by (cases fuel) auto
  from Cons.prems have "chain h (p # ps) s" "s \<notin> set ps" "length ps < n" "p \<noteq> s"
    and c: "c < length h" "he_next (h ! c) = Ptr p"
    using n by auto
  with Cons.IH have "ring_walk h n (Ptr s) (Ptr p) = Some (map Ptr (p # ps))" by blast
  with c \<open>p \<noteq> s\<close> show ?case by (simp add: n deref_Ptr)
qed

lemma find_walk_chain:
  "chain h (c # ps) s \<Longrightarrow> s \<notin> set ps \<Longrightarrow> length ps < fuel \<Longrightarrow>
   (\<forall>p \<in> set (c # ps). \<exists>j<length h. he_sym (h ! p) = Ptr j) \<Longrightarrow>
   find_walk h fuel (Ptr s) (Ptr c) d =
     Some (case List.find (\<lambda>i. dest_of h i = d) (c # ps) of None \<Rightarrow> Null | Some i \<Rightarrow> Ptr i)"
proof (induction ps arbitrary: c fuel)
  case Nil
  then obtain n where "fuel = Suc n" by (cases fuel) auto
  with Nil show ?case by (auto simp: deref_Ptr dest_of_def)
next
  case (Cons p ps)
  then obtain n where n: "fuel = Suc n" by (cases fuel) auto
  from Cons.prems have "chain h (p # ps) s" "s \<notin> set ps" "length ps < n" "p \<noteq> s"
    "\<forall>q \<in> set (p # ps). \<exists>j<length h. he_sym (h ! q) = Ptr j"
    and c: "c < length h" "he_next (h ! c) = Ptr p"
    using n by auto
  with Cons.IH have IH: "find_walk h n (Ptr s) (Ptr p) d =
     Some (case List.find (\<lambda>i. dest_of h i = d) (p # ps) of None \<Rightarrow> Null | Some i \<Rightarrow> Ptr i)" by blast
  from Cons.prems obtain j where j: "j < length h" "he_sym (h ! c) = Ptr j" by auto
  show ?case
    using c j \<open>p \<noteq> s\<close> IH by (simp add: n deref_Ptr dest_of_def)
qed

subsection \<open>The vertex map; a fresh pair of half-edges\<close>

lemma map_find_assign:
  "map_find (map_assign m k v) k' = (if k' = k then Some v else map_find m k')"
  by (induction m) auto

lemma keys_assign: "set (map fst (map_assign m k v)) = insert k (set (map fst m))"
  by (induction m k v rule: map_assign.induct) auto

lemma map_ok_assign: "map_ok m \<Longrightarrow> map_ok (map_assign m k v)"
  unfolding map_ok_def
proof (induction m)
  case Nil
  show ?case by simp
next
  case (Cons a m)
  obtain k' v' where a: "a = (k', v')" by (cases a)
  from Cons.prems have hd: "\<forall>x \<in> set (map fst m). k' < x" and tl: "sorted_wrt (<) (map fst m)"
    by (auto simp: a)
  show ?case
  proof (cases "k < k'")
    case True
    with hd tl show ?thesis by (auto simp: a)
  next
    case False
    show ?thesis
    proof (cases "k = k'")
      case True
      with hd tl show ?thesis by (auto simp: a)
    next
      case ne: False
      with False have "k' < k" by simp
      with hd have "\<forall>x \<in> set (map fst (map_assign m k v)). k' < x"
        by (simp only: keys_assign) auto
      with Cons.IH [OF tl] False ne show ?thesis by (simp add: a)
    qed
  qed
qed

lemma map_find_Some_mem: "map_find m k = Some v \<Longrightarrow> (k, v) \<in> set m"
  by (induction m) (auto split: if_splits)

lemma map_find_None_iff: "map_find m k = None \<longleftrightarrow> k \<notin> fst ` set m"
  by (induction m) (auto split: if_splits)

lemma map_ok_mem_find: "map_ok m \<Longrightarrow> (k, v) \<in> set m \<Longrightarrow> map_find m k = Some v"
  unfolding map_ok_def by (induction m) (auto simp: rev_image_eqI)

lemma create_eq:
  "create g p0 p1 = Some (Ptr (length (edges g)), g\<lparr>edges := fresh_pair (edges g) p0 p1\<rparr>)"
proof -
  have "create g p0 p1 = Some (Ptr (length (edges g)),
      g\<lparr>edges := (edges g @
         [\<lparr>he_orig = p0, he_sym = Ptr (Suc (length (edges g))), he_next = Ptr (length (edges g))\<rparr>,
          HalfEdge_new p1])
         [Suc (length (edges g)) :=
            \<lparr>he_orig = p1, he_sym = Ptr (length (edges g)), he_next = Ptr (Suc (length (edges g)))\<rparr>]\<rparr>)"
    by (simp add: create_def createEdge_def HalfEdge_link_def deref_Ptr store_def
        HalfEdge_new_def nth_append)
  then show ?thesis
    by (simp add: fresh_pair_def list_update_append)
qed

lemma fresh_pair_simps:
  "length (fresh_pair h a b) = Suc (Suc (length h))"
  "i < length h \<Longrightarrow> fresh_pair h a b ! i = h ! i"
  "fresh_pair h a b ! length h = \<lparr>he_orig = a, he_sym = Ptr (Suc (length h)), he_next = Ptr (length h)\<rparr>"
  "fresh_pair h a b ! Suc (length h) = \<lparr>he_orig = b, he_sym = Ptr (length h), he_next = Ptr (Suc (length h))\<rparr>"
  by (simp_all add: fresh_pair_def nth_append)

lemma less_SucSuc: "i < Suc (Suc n) \<longleftrightarrow> i < n \<or> i = n \<or> i = Suc n"
  by auto

lemma linked_fresh_pair:
  assumes "linked h" "a \<noteq> b"
  shows "linked (fresh_pair h a b)"
  unfolding linked_def
proof (intro allI impI)
  fix i assume "i < length (fresh_pair h a b)"
  then consider "i < length h" | "i = length h" | "i = Suc (length h)"
    by (auto simp: fresh_pair_simps less_SucSuc)
  then show "\<exists>j<length (fresh_pair h a b). he_sym (fresh_pair h a b ! i) = Ptr j \<and>
      he_sym (fresh_pair h a b ! j) = Ptr i \<and> he_orig (fresh_pair h a b ! j) \<noteq> he_orig (fresh_pair h a b ! i)"
  proof cases
    case 1
    with assms(1) obtain j where "j < length h" "he_sym (h ! i) = Ptr j" "he_sym (h ! j) = Ptr i"
      "he_orig (h ! j) \<noteq> he_orig (h ! i)" unfolding linked_def by blast
    with 1 show ?thesis by (intro exI [of _ j]) (simp add: fresh_pair_simps)
  next
    case 2
    with assms(2) show ?thesis by (intro exI [of _ "Suc (length h)"]) (simp add: fresh_pair_simps)
  next
    case 3
    with assms(2) show ?thesis by (intro exI [of _ "length h"]) (simp add: fresh_pair_simps)
  qed
qed

lemma dest_of_fresh_pair:
  assumes "linked h"
  shows "i < length h \<Longrightarrow> dest_of (fresh_pair h a b) i = dest_of h i"
    and "dest_of (fresh_pair h a b) (length h) = b"
    and "dest_of (fresh_pair h a b) (Suc (length h)) = a"
proof -
  show "dest_of (fresh_pair h a b) i = dest_of h i" if "i < length h"
  proof -
    from assms that obtain j where "j < length h" "he_sym (h ! i) = Ptr j"
      unfolding linked_def by blast
    with that show ?thesis by (simp add: dest_of_def fresh_pair_simps)
  qed
  show "dest_of (fresh_pair h a b) (length h) = b"
    by (simp add: dest_of_def fresh_pair_simps)
  show "dest_of (fresh_pair h a b) (Suc (length h)) = a"
    by (simp add: dest_of_def fresh_pair_simps)
qed

lemma linked_flip:
  assumes "linked h" "i < length h"
  obtains j where "j < length h" "he_sym (h ! i) = Ptr j" "he_sym (h ! j) = Ptr i"
    "he_orig (h ! j) = dest_of h i" "dest_of h j = he_orig (h ! i)" "he_orig (h ! j) \<noteq> he_orig (h ! i)"
proof -
  from assms obtain j where "j < length h" "he_sym (h ! i) = Ptr j" "he_sym (h ! j) = Ptr i"
      "he_orig (h ! j) \<noteq> he_orig (h ! i)" unfolding linked_def by blast
  then show ?thesis by (intro that [of j]) (simp_all add: dest_of_def)
qed

lemma no_dup_fresh_pair:
  assumes l: "linked h" and nd: "no_dup h" and ne: "a \<noteq> b"
    and new: "\<forall>i<length h. \<not> (he_orig (h ! i) = a \<and> dest_of h i = b)"
  shows "no_dup (fresh_pair h a b)"
proof -
  have new': "\<not> (he_orig (h ! i) = b \<and> dest_of h i = a)" if "i < length h" for i
  proof
    assume *: "he_orig (h ! i) = b \<and> dest_of h i = a"
    from l that obtain j where "j < length h" "he_orig (h ! j) = dest_of h i"
      "dest_of h j = he_orig (h ! i)" by (rule linked_flip)
    with * new show False by auto
  qed
  let ?h = "fresh_pair h a b"
  have old: "he_orig (?h ! i) = he_orig (h ! i)" "dest_of ?h i = dest_of h i" if "i < length h" for i
    using that by (simp_all add: fresh_pair_simps dest_of_fresh_pair [OF l])
  have e0: "he_orig (?h ! length h) = a" "dest_of ?h (length h) = b"
    by (simp_all add: fresh_pair_simps dest_of_fresh_pair [OF l])
  have e1: "he_orig (?h ! Suc (length h)) = b" "dest_of ?h (Suc (length h)) = a"
    by (simp_all add: fresh_pair_simps dest_of_fresh_pair [OF l])
  have "i = j" if "i < length ?h" "j < length ?h" "he_orig (?h ! i) = he_orig (?h ! j)"
    "dest_of ?h i = dest_of ?h j" for i j
  proof -
    from that(1) consider "i < length h" | "i = length h" | "i = Suc (length h)"
      by (auto simp: fresh_pair_simps less_SucSuc)
    then show ?thesis
    proof cases
      case 1
      from that(2) consider "j < length h" | "j = length h" | "j = Suc (length h)"
        by (auto simp: fresh_pair_simps less_SucSuc)
      then show ?thesis
      proof cases
        case 1
        with \<open>i < length h\<close> that(3,4) nd show ?thesis
          unfolding no_dup_def by (metis old)
      next
        case 2
        with \<open>i < length h\<close> that(3,4) new show ?thesis by (metis old e0)
      next
        case 3
        with \<open>i < length h\<close> that(3,4) new' show ?thesis by (metis old e1)
      qed
    next
      case 2
      from that(2) consider "j < length h" | "j = length h" | "j = Suc (length h)"
        by (auto simp: fresh_pair_simps less_SucSuc)
      then show ?thesis
      proof cases
        case 1
        with \<open>i = length h\<close> that(3,4) new show ?thesis by (metis old e0)
      next
        case 2
        with \<open>i = length h\<close> show ?thesis by simp
      next
        case 3
        with \<open>i = length h\<close> that(3) ne show ?thesis by (metis e0 e1)
      qed
    next
      case 3
      from that(2) consider "j < length h" | "j = length h" | "j = Suc (length h)"
        by (auto simp: fresh_pair_simps less_SucSuc)
      then show ?thesis
      proof cases
        case 1
        with \<open>i = Suc (length h)\<close> that(3,4) new' show ?thesis by (metis old e1)
      next
        case 2
        with \<open>i = Suc (length h)\<close> that(3) ne show ?thesis by (metis e0 e1)
      next
        case 3
        with \<open>i = Suc (length h)\<close> show ?thesis by simp
      qed
    qed
  qed
  then show ?thesis unfolding no_dup_def by blast
qed

subsection \<open>Splicing into a ring\<close>

lemma insertAfter_eq:
  "a < length h \<Longrightarrow> e < length h \<Longrightarrow> insertAfter h (Ptr a) (Ptr e) = Some (splice h a e)"
  by (simp add: insertAfter_def deref_Ptr store_def splice_def)

lemma nth_update_cases:
  "h[i := x] ! j = (if j = i \<and> i < length h then x else h ! j)"
  by (cases "i < length h") (auto simp: nth_list_update list_update_beyond)

lemma splice_simps:
  "length (splice h a e) = length h"
  "he_orig (splice h a e ! j) = he_orig (h ! j)"
  "he_sym (splice h a e ! j) = he_sym (h ! j)"
  by (simp_all add: splice_def nth_update_cases)

lemma splice_next:
  assumes "a < length h" "e < length h"
  shows "he_next (splice h a e ! j) =
           (if j = a then Ptr e else if j = e then he_next (h ! a) else he_next (h ! j))"
  using assms by (simp add: splice_def nth_update_cases)

lemma same_edges_splice: "same_edges (splice h a e) h"
  by (simp add: same_edges_def splice_simps)

lemma same_edges_dest: "same_edges h' h \<Longrightarrow> dest_of h' i = dest_of h i"
  by (simp add: same_edges_def dest_of_def)

lemma same_edges_linked: "same_edges h' h \<Longrightarrow> linked h \<Longrightarrow> linked h'"
  by (simp add: same_edges_def linked_def)

lemma same_edges_no_dup: "same_edges h' h \<Longrightarrow> no_dup h \<Longrightarrow> no_dup h'"
  by (simp add: no_dup_def same_edges_dest) (simp add: same_edges_def)

lemma same_edges_members: "same_edges h' h \<Longrightarrow> members h' v P = members h v P"
  by (simp add: same_edges_def members_def)

lemma ring_splice:
  assumes r: "is_ring h ps" and k: "k < length ps" and e: "e < length h" "e \<notin> set ps"
  shows "is_ring (splice h (ps ! k) e) (take (Suc k) ps @ e # drop (Suc k) ps)"
proof -
  let ?a = "ps ! k" and ?xs = "take k ps" and ?ys = "drop (Suc k) ps"
  let ?h = "splice h ?a e" and ?q = "hd ps"
  have ps: "ps = ?xs @ ?a # ?ys" using k by (rule id_take_nth_drop)
  from r have d: "distinct ps" and c: "chain h ps ?q" and "ps \<noteq> []" by (simp_all add: is_ring_def)
  from d ps have dx: "distinct (?xs @ ?a # ?ys)" by simp
  then have ax: "?a \<notin> set ?xs" and ay: "?a \<notin> set ?ys" by auto
  from e(2) have ex: "e \<notin> set ?xs" and ey: "e \<notin> set ?ys" and ea: "e \<noteq> ?a"
    using k by (auto dest: in_set_takeD in_set_dropD)
  from c ps have "chain h (?xs @ ?a # ?ys) ?q" by simp
  then have cx: "chain h ?xs ?a" and a: "?a < length h" "he_next (h ! ?a) = Ptr (hd (?ys @ [?q]))"
    and cy: "chain h ?ys ?q" by (simp_all add: chain_append)
  have cx': "chain ?h ?xs ?a"
    using cx ax ex by (subst chain_cong [of _ h]) (auto simp: splice_simps splice_next a e)
  have cy': "chain ?h ?ys ?q"
    using cy ay ey by (subst chain_cong [of _ h]) (auto simp: splice_simps splice_next a e)
  have hd: "hd (?xs @ ?a # e # ?ys) = ?q"
    using k by (cases ps; cases k) auto
  have tk: "take (Suc k) ps = ?xs @ [?a]" using k by (rule take_Suc_conv_app_nth)
  have "chain ?h (?xs @ ?a # e # ?ys) ?q"
    using cx' cy' a e ea by (simp add: chain_append splice_simps splice_next)
  moreover have "distinct (?xs @ ?a # e # ?ys)" using dx ex ey ea by auto
  ultimately show ?thesis by (simp add: is_ring_def hd tk)
qed

lemma ring_frame:
  assumes "is_ring h ps" "length h' = length h" "\<And>p. p \<in> set ps \<Longrightarrow> he_next (h' ! p) = he_next (h ! p)"
  shows "is_ring h' ps"
  using assms by (simp add: is_ring_def chain_cong [of h' h])

lemma ring_length: "is_ring h ps \<Longrightarrow> length ps \<le> length h"
proof -
  assume r: "is_ring h ps"
  then have "set ps \<subseteq> {..<length h}" by (auto simp: is_ring_def dest: chain_bound)
  then have "card (set ps) \<le> card {..<length h}" by (intro card_mono) auto
  with r show ?thesis by (simp add: is_ring_def distinct_card)
qed

lemma ring_walk_ring:
  assumes "is_ring h ps"
  shows "ring_walk h (length h) (Ptr (hd ps)) (Ptr (hd ps)) = Some (map Ptr ps)"
proof -
  from assms obtain c qs where ps: "ps = c # qs" by (cases ps) (auto simp: is_ring_def)
  with assms have "chain h (c # qs) c" "c \<notin> set qs" by (auto simp: is_ring_def)
  moreover from ring_length [OF assms] have "length qs < length h" by (simp add: ps)
  ultimately show ?thesis unfolding ps list.sel by (rule ring_walk_chain)
qed

lemma ring_loop_ring:
  assumes "is_ring h ps"
  shows "ring_loop h (Ptr (hd ps)) (Ptr (hd ps)) = Some (map Ptr ps)"
  using ring_walk_ring [OF assms] by (rule ring_walk_loop)

subsection \<open>The invariant under create, map assignment and HalfEdge::insert\<close>

lemma wfP_create:
  assumes wf: "wfP g {}" and ne: "a \<noteq> b"
    and new: "\<forall>i<length (edges g). \<not> (he_orig (edges g ! i) = a \<and> dest_of (edges g) i = b)"
  shows "wfP (g\<lparr>edges := fresh_pair (edges g) a b\<rparr>) {length (edges g), Suc (length (edges g))}"
proof -
  let ?h = "edges g" and ?h' = "fresh_pair (edges g) a b"
  let ?P = "{length ?h, Suc (length ?h)}"
  from wf have l: "linked ?h" and nd: "no_dup ?h" and ro: "rings_ok g {}" and ko: "keys_ok g {}"
    and mo: "map_ok (vertexMap g)" by (simp_all add: wfP_def)
  have mem: "members ?h' v ?P = members ?h v {}" for v
    by (auto simp: members_def fresh_pair_simps less_SucSuc)
  have "rings_ok (g\<lparr>edges := ?h'\<rparr>) ?P"
    unfolding rings_ok_def
  proof (intro allI impI)
    fix v p assume "map_find (vertexMap (g\<lparr>edges := ?h'\<rparr>)) v = Some p"
    then have "map_find (vertexMap g) v = Some p" by simp
    with ro obtain ps where ps: "p = Ptr (hd ps)" "is_ring ?h ps" "set ps = members ?h v {}"
      unfolding rings_ok_def by blast
    from ps(2) have "is_ring ?h' ps" by (simp add: is_ring_def fresh_pair_def chain_grow)
    with ps show "\<exists>ps. p = Ptr (hd ps) \<and> is_ring (edges (g\<lparr>edges := ?h'\<rparr>)) ps \<and>
        set ps = members (edges (g\<lparr>edges := ?h'\<rparr>)) v ?P"
      by (intro exI [of _ ps]) (simp add: mem)
  qed
  moreover have "keys_ok (g\<lparr>edges := ?h'\<rparr>) ?P"
    using ko by (auto simp: keys_ok_def fresh_pair_simps less_SucSuc)
  moreover have "pending_ok ?h' ?P"
    by (simp add: pending_ok_def fresh_pair_simps)
  ultimately show ?thesis
    using mo linked_fresh_pair [OF l ne] no_dup_fresh_pair [OF l nd ne new]
    by (simp add: wfP_def)
qed

lemma wfP_attach_new:
  assumes wf: "wfP g P" and i: "i \<in> P"
    and none: "map_find (vertexMap g) (he_orig (edges g ! i)) = None"
    and only: "\<forall>j\<in>P. j \<noteq> i \<longrightarrow> he_orig (edges g ! j) \<noteq> he_orig (edges g ! i)"
  shows "wfP (g\<lparr>vertexMap := map_assign (vertexMap g) (he_orig (edges g ! i)) (Ptr i)\<rparr>) (P - {i})"
proof -
  let ?h = "edges g" and ?v = "he_orig (edges g ! i)"
  let ?g = "g\<lparr>vertexMap := map_assign (vertexMap g) ?v (Ptr i)\<rparr>"
  from wf have l: "linked ?h" and nd: "no_dup ?h" and ro: "rings_ok g P" and ko: "keys_ok g P"
    and mo: "map_ok (vertexMap g)" and po: "pending_ok ?h P" by (simp_all add: wfP_def)
  from po i have iP: "i < length ?h" "he_next (?h ! i) = Ptr i" by (auto simp: pending_ok_def)
  have "rings_ok ?g (P - {i})"
    unfolding rings_ok_def
  proof (intro allI impI)
    fix v p assume f: "map_find (vertexMap ?g) v = Some p"
    show "\<exists>ps. p = Ptr (hd ps) \<and> is_ring (edges ?g) ps \<and> set ps = members (edges ?g) v (P - {i})"
    proof (cases "v = ?v")
      case True
      with f have p: "p = Ptr i" by (simp add: map_find_assign)
      have "members ?h ?v (P - {i}) = {i}"
      proof -
        have "j = i" if "j < length ?h" "he_orig (?h ! j) = ?v" "j \<notin> P - {i}" for j
        proof (rule ccontr)
          assume "j \<noteq> i"
          with that(3) have "j \<notin> P" by simp
          with ko that(1,2) none show False by (auto simp: keys_ok_def)
        qed
        with iP show ?thesis by (auto simp: members_def)
      qed
      moreover have "is_ring ?h [i]" using iP by (simp add: is_ring_def)
      ultimately show ?thesis using p True by (intro exI [of _ "[i]"]) simp
    next
      case False
      with f have "map_find (vertexMap g) v = Some p" by (simp add: map_find_assign)
      with ro obtain ps where ps: "p = Ptr (hd ps)" "is_ring ?h ps" "set ps = members ?h v P"
        unfolding rings_ok_def by blast
      have "members ?h v (P - {i}) = members ?h v P" using False by (auto simp: members_def)
      with ps show ?thesis by (intro exI [of _ ps]) simp
    qed
  qed
  moreover have "keys_ok ?g (P - {i})"
    using ko by (auto simp: keys_ok_def map_find_assign)
  moreover have "pending_ok ?h (P - {i})" using po by (simp add: pending_ok_def)
  ultimately show ?thesis
    using l nd map_ok_assign [OF mo] by (simp add: wfP_def)
qed

lemma HalfEdge_insert_eq:
  assumes r: "is_ring h ps" and i: "i < length h" and o: "he_orig (h ! hd ps) = he_orig (h ! i)"
  shows "HalfEdge_insert place h (Ptr (hd ps)) (Ptr i) =
           Some (splice h (ps ! (place h (map Ptr ps) (Ptr i) mod length ps)) i)"
proof -
  let ?k = "place h (map Ptr ps) (Ptr i) mod length ps"
  from r have ne: "ps \<noteq> []" and c: "chain h ps (hd ps)" by (simp_all add: is_ring_def)
  from ne have k: "?k < length ps" by simp
  then have "ps ! ?k \<in> set ps" by (rule nth_mem)
  with c have a: "ps ! ?k < length h" by (rule chain_bound)
  from ne c have s: "hd ps < length h" by (auto intro: chain_bound)
  have "map Ptr ps ! ?k = Ptr (ps ! ?k)" using k by simp
  then show ?thesis
    using s i o ring_loop_ring [OF r] insertAfter_eq [OF a i]
    by (simp add: HalfEdge_insert_def deref_Ptr)
qed

lemma wfP_attach_ring:
  assumes wf: "wfP g P" and i: "i \<in> P"
    and some: "map_find (vertexMap g) (he_orig (edges g ! i)) = Some p"
  shows "\<exists>h'. HalfEdge_insert place (edges g) p (Ptr i) = Some h' \<and> same_edges h' (edges g) \<and>
           wfP (g\<lparr>edges := h'\<rparr>) (P - {i})"
proof -
  let ?h = "edges g" and ?v = "he_orig (edges g ! i)"
  from wf have l: "linked ?h" and nd: "no_dup ?h" and ro: "rings_ok g P" and ko: "keys_ok g P"
    and mo: "map_ok (vertexMap g)" and po: "pending_ok ?h P" by (simp_all add: wfP_def)
  from po i have iP: "i < length ?h" "he_next (?h ! i) = Ptr i" by (auto simp: pending_ok_def)
  from ro some obtain ps where ps: "p = Ptr (hd ps)" "is_ring ?h ps" "set ps = members ?h ?v P"
    unfolding rings_ok_def by blast
  from ps(2) have ne: "ps \<noteq> []" by (simp add: is_ring_def)
  define k where "k = place ?h (map Ptr ps) (Ptr i) mod length ps"
  define a where "a = ps ! k"
  define h' where "h' = splice ?h a i"
  from ne have k: "k < length ps" by (simp add: k_def)
  then have "a \<in> set ps" unfolding a_def by (rule nth_mem)
  with ps(3) have a: "a < length ?h" "he_orig (?h ! a) = ?v" "a \<notin> P" by (auto simp: members_def)
  from ne ps(3) have "he_orig (?h ! hd ps) = ?v" by (auto simp: members_def dest: hd_in_set)
  with ps(2) iP(1) have ins: "HalfEdge_insert place ?h p (Ptr i) = Some h'"
    unfolding ps(1) h'_def a_def k_def by (rule HalfEdge_insert_eq)
  have se: "same_edges h' ?h" unfolding h'_def by (rule same_edges_splice)
  from i ps(3) have ips: "i \<notin> set ps" by (simp add: members_def)
  have nx: "he_next (h' ! j) = he_next (?h ! j)" if "j \<noteq> a" "j \<noteq> i" for j
    using that a(1) iP(1) by (simp add: h'_def splice_next)
  have "rings_ok (g\<lparr>edges := h'\<rparr>) (P - {i})"
    unfolding rings_ok_def
  proof (intro allI impI)
    fix v q assume "map_find (vertexMap (g\<lparr>edges := h'\<rparr>)) v = Some q"
    then have f: "map_find (vertexMap g) v = Some q" by simp
    show "\<exists>qs. q = Ptr (hd qs) \<and> is_ring (edges (g\<lparr>edges := h'\<rparr>)) qs \<and>
        set qs = members (edges (g\<lparr>edges := h'\<rparr>)) v (P - {i})"
    proof (cases "v = ?v")
      case True
      let ?qs = "take (Suc k) ps @ i # drop (Suc k) ps"
      from True f some have q: "q = Ptr (hd ps)" by (simp add: ps(1))
      have "hd ?qs = hd ps" using k by (cases ps) auto
      moreover have "is_ring h' ?qs"
        unfolding h'_def a_def using ps(2) k iP(1) ips by (rule ring_splice)
      moreover have "set ?qs = insert i (set ps)"
      proof -
        have "set (take (Suc k) ps) \<union> set (drop (Suc k) ps) = set ps"
          by (metis append_take_drop_id set_append)
        then show ?thesis by auto
      qed
      moreover have "members ?h ?v (P - {i}) = insert i (members ?h ?v P)"
        using iP(1) by (auto simp: members_def)
      ultimately show ?thesis
        using q True ps(3) by (intro exI [of _ ?qs]) (simp add: same_edges_members [OF se])
    next
      case False
      from ro f obtain qs where qs: "q = Ptr (hd qs)" "is_ring ?h qs" "set qs = members ?h v P"
        unfolding rings_ok_def by blast
      have "he_next (h' ! j) = he_next (?h ! j)" if "j \<in> set qs" for j
      proof (rule nx)
        from that qs(3) have "he_orig (?h ! j) = v" by (simp add: members_def)
        with False a(2) show "j \<noteq> a" "j \<noteq> i" by auto
      qed
      with qs(2) have "is_ring h' qs"
        using se by (intro ring_frame [of ?h qs h']) (simp_all add: same_edges_def)
      moreover have "members ?h v (P - {i}) = members ?h v P"
        using False by (auto simp: members_def)
      ultimately show ?thesis
        using qs by (intro exI [of _ qs]) (simp add: same_edges_members [OF se])
    qed
  qed
  moreover have "keys_ok (g\<lparr>edges := h'\<rparr>) (P - {i})"
    using ko some se by (auto simp: keys_ok_def same_edges_def)
  moreover have "pending_ok h' (P - {i})"
    unfolding pending_ok_def
  proof
    fix j assume j: "j \<in> P - {i}"
    with a(3) have "j \<noteq> a" "j \<noteq> i" by auto
    with nx po j se show "j < length h' \<and> he_next (h' ! j) = Ptr j"
      by (simp add: pending_ok_def same_edges_def)
  qed
  ultimately have "wfP (g\<lparr>edges := h'\<rparr>) (P - {i})"
    using mo same_edges_linked [OF se l] same_edges_no_dup [OF se nd]
    by (simp add: wfP_def)
  with ins se show ?thesis by blast
qed

subsection \<open>HalfEdge::find on a ring; one branch of EdgeGraph::insert\<close>

lemma edge_set_iff:
  "(a, b) \<in> edge_set h \<longleftrightarrow> (\<exists>i<length h. he_orig (h ! i) = a \<and> dest_of h i = b)"
  by (auto simp: edge_set_def)

lemma edge_set_same: "same_edges h' h \<Longrightarrow> edge_set h' = edge_set h"
  by (simp add: edge_set_def same_edges_dest) (simp add: same_edges_def)

lemma edge_set_fresh_pair:
  assumes "linked h"
  shows "edge_set (fresh_pair h a b) = edge_set h \<union> {(a, b), (b, a)}"
proof -
  let ?h = "fresh_pair h a b"
  have "edge_set ?h = (\<lambda>i. (he_orig (?h ! i), dest_of ?h i)) ` {..<Suc (Suc (length h))}"
    by (simp add: edge_set_def fresh_pair_simps)
  also have "{..<Suc (Suc (length h))} = insert (Suc (length h)) (insert (length h) {..<length h})"
    by auto
  also have "(\<lambda>i. (he_orig (?h ! i), dest_of ?h i)) ` \<dots> =
      insert (b, a) (insert (a, b) ((\<lambda>i. (he_orig (?h ! i), dest_of ?h i)) ` {..<length h}))"
    by (simp add: fresh_pair_simps dest_of_fresh_pair [OF assms])
  also have "(\<lambda>i. (he_orig (?h ! i), dest_of ?h i)) ` {..<length h} =
      (\<lambda>i. (he_orig (h ! i), dest_of h i)) ` {..<length h}"
    by (intro image_cong) (simp_all add: fresh_pair_simps dest_of_fresh_pair [OF assms])
  also have "\<dots> = edge_set h" by (simp add: edge_set_def)
  finally show ?thesis by auto
qed

lemma edge_set_sym:
  assumes "linked h" "(a, b) \<in> edge_set h"
  shows "(b, a) \<in> edge_set h"
proof -
  from assms(2) obtain i where i: "i < length h" "he_orig (h ! i) = a" "dest_of h i = b"
    by (auto simp: edge_set_iff)
  from assms(1) i(1) obtain j where "j < length h" "he_orig (h ! j) = dest_of h i"
    "dest_of h j = he_orig (h ! i)" by (rule linked_flip)
  with i show ?thesis unfolding edge_set_iff by auto
qed

lemma rings_ok_not_Null: "rings_ok g P \<Longrightarrow> map_find (vertexMap g) v \<noteq> Some Null"
  by (auto simp: rings_ok_def)

lemma find_wf:
  assumes wf: "wfP g {}" and f: "map_find (vertexMap g) v = Some p"
  shows "\<exists>r. HalfEdge_find (edges g) p d = Some r \<and>
           (r = Null \<longrightarrow> (v, d) \<notin> edge_set (edges g)) \<and>
           (\<forall>i. r = Ptr i \<longrightarrow> i < length (edges g) \<and> he_orig (edges g ! i) = v \<and> dest_of (edges g) i = d)"
proof -
  let ?h = "edges g"
  from wf have l: "linked ?h" and ro: "rings_ok g {}" by (simp_all add: wfP_def)
  from ro f obtain ps where ps: "p = Ptr (hd ps)" "is_ring ?h ps" "set ps = members ?h v {}"
    unfolding rings_ok_def by blast
  from ps(2) obtain c qs where cq: "ps = c # qs" by (cases ps) (auto simp: is_ring_def)
  with ps(2) have "chain ?h (c # qs) c" "c \<notin> set qs" by (auto simp: is_ring_def)
  moreover from ring_length [OF ps(2)] have "length qs < length ?h" by (simp add: cq)
  moreover have "\<forall>q \<in> set (c # qs). \<exists>j<length ?h. he_sym (?h ! q) = Ptr j"
  proof
    fix q assume "q \<in> set (c # qs)"
    with ps(3) cq have "q < length ?h" by (simp add: members_def)
    with l show "\<exists>j<length ?h. he_sym (?h ! q) = Ptr j" unfolding linked_def by blast
  qed
  ultimately have fw: "find_walk ?h (length ?h) (Ptr c) (Ptr c) d =
      Some (case List.find (\<lambda>i. dest_of ?h i = d) (c # qs) of None \<Rightarrow> Null | Some i \<Rightarrow> Ptr i)"
    by (rule find_walk_chain)
  then have fl: "find_loop ?h (Ptr c) (Ptr c) d =
      Some (case List.find (\<lambda>i. dest_of ?h i = d) (c # qs) of None \<Rightarrow> Null | Some i \<Rightarrow> Ptr i)"
    by (rule find_walk_loop)
  show ?thesis
  proof (cases "List.find (\<lambda>i. dest_of ?h i = d) ps")
    case None
    then have "\<forall>i \<in> set ps. dest_of ?h i \<noteq> d" by (simp add: find_None_iff)
    with ps(3) have "(v, d) \<notin> edge_set ?h" by (auto simp: edge_set_iff members_def)
    with fl None show ?thesis by (simp add: HalfEdge_find_def ps(1) cq)
  next
    case (Some i)
    then have "i \<in> set ps" "dest_of ?h i = d" by (auto simp: find_Some_iff)
    with ps(3) have "i < length ?h \<and> he_orig (?h ! i) = v \<and> dest_of ?h i = d"
      by (simp add: members_def)
    with fl Some show ?thesis by (simp add: HalfEdge_find_def ps(1) cq)
  qed
qed

lemma wfP_attach:
  assumes wf: "wfP g P" and i: "i \<in> P"
    and only: "\<forall>j\<in>P. j \<noteq> i \<longrightarrow> he_orig (edges g ! j) \<noteq> he_orig (edges g ! i)"
  shows "\<exists>g'. attach place g (he_orig (edges g ! i)) (Ptr i) = Some g' \<and>
           same_edges (edges g') (edges g) \<and> wfP g' (P - {i})"
proof (cases "map_find (vertexMap g) (he_orig (edges g ! i))")
  case None
  with wfP_attach_new [OF wf i None only] show ?thesis
    by (simp add: attach_def same_edges_def)
next
  case (Some p)
  from wf have "rings_ok g P" by (simp add: wfP_def)
  with Some have "p \<noteq> Null" by (auto dest: rings_ok_not_Null)
  with wfP_attach_ring [OF wf i Some, of place] Some show ?thesis
    by (auto simp: attach_def)
qed

lemma EdgeGraph_insert_attach:
  "EdgeGraph_insert place g a b (case map_find (vertexMap g) a of None \<Rightarrow> Null | Some p \<Rightarrow> p) =
     do { let e = Ptr (length (edges g));
          g2 \<leftarrow> attach place (g\<lparr>edges := fresh_pair (edges g) a b\<rparr>) a e;
          s \<leftarrow> HalfEdge_sym (edges g2) e;
          g3 \<leftarrow> attach place g2 b s;
          Some (e, g3) }"
  unfolding EdgeGraph_insert_def create_eq attach_def Let_def
  by (auto split: option.splits Option.bind_splits)

subsection \<open>One call of addEdge\<close>

lemma same_edges_trans: "same_edges h2 h1 \<Longrightarrow> same_edges h1 h \<Longrightarrow> same_edges h2 h"
  by (simp add: same_edges_def)

lemma insert_wf:
  assumes wf: "wfP g {}" and ne: "a \<noteq> b" and new: "(a, b) \<notin> edge_set (edges g)"
  shows "\<exists>g'. EdgeGraph_insert place g a b
                 (case map_find (vertexMap g) a of None \<Rightarrow> Null | Some p \<Rightarrow> p) =
                 Some (Ptr (length (edges g)), g') \<and>
              wfP g' {} \<and> same_edges (edges g') (fresh_pair (edges g) a b)"
proof -
  let ?n = "length (edges g)"
  define g1 where "g1 = g\<lparr>edges := fresh_pair (edges g) a b\<rparr>"
  have e1: "edges g1 = fresh_pair (edges g) a b" by (simp add: g1_def)
  from new have "\<forall>i<?n. \<not> (he_orig (edges g ! i) = a \<and> dest_of (edges g) i = b)"
    by (simp add: edge_set_iff)
  with wf ne have wf1: "wfP g1 {?n, Suc ?n}" unfolding g1_def by (rule wfP_create)
  have o1: "he_orig (edges g1 ! ?n) = a" "he_orig (edges g1 ! Suc ?n) = b"
    by (simp_all add: e1 fresh_pair_simps)
  have "\<forall>j\<in>{?n, Suc ?n}. j \<noteq> ?n \<longrightarrow> he_orig (edges g1 ! j) \<noteq> he_orig (edges g1 ! ?n)"
    using ne by (simp add: o1)
  with wf1 have "\<exists>g'. attach place g1 (he_orig (edges g1 ! ?n)) (Ptr ?n) = Some g' \<and>
           same_edges (edges g') (edges g1) \<and> wfP g' ({?n, Suc ?n} - {?n})"
    by (intro wfP_attach) simp_all
  then obtain g2 where g2: "attach place g1 a (Ptr ?n) = Some g2" "same_edges (edges g2) (edges g1)"
    "wfP g2 ({?n, Suc ?n} - {?n})" unfolding o1 by blast
  have "{?n, Suc ?n} - {?n} = {Suc ?n}" by auto
  with g2(3) have wf2: "wfP g2 {Suc ?n}" by simp
  from g2(2) have len2: "length (edges g2) = Suc (Suc ?n)"
    and s2: "he_sym (edges g2 ! ?n) = Ptr (Suc ?n)"
    and o2: "he_orig (edges g2 ! Suc ?n) = b"
    by (simp_all add: same_edges_def e1 fresh_pair_simps)
  have sym: "HalfEdge_sym (edges g2) (Ptr ?n) = Some (Ptr (Suc ?n))"
    by (simp add: HalfEdge_sym_def deref_Ptr len2 s2)
  from wf2 have "\<exists>g'. attach place g2 (he_orig (edges g2 ! Suc ?n)) (Ptr (Suc ?n)) = Some g' \<and>
           same_edges (edges g') (edges g2) \<and> wfP g' ({Suc ?n} - {Suc ?n})"
    by (intro wfP_attach) simp_all
  then obtain g3 where g3: "attach place g2 b (Ptr (Suc ?n)) = Some g3"
    "same_edges (edges g3) (edges g2)" "wfP g3 {}" unfolding o2 by auto
  have "EdgeGraph_insert place g a b
          (case map_find (vertexMap g) a of None \<Rightarrow> Null | Some p \<Rightarrow> p) = Some (Ptr ?n, g3)"
    unfolding EdgeGraph_insert_attach using g2(1) sym g3(1) by (simp add: g1_def)
  moreover have "same_edges (edges g3) (fresh_pair (edges g) a b)"
    using g3(2) g2(2) unfolding e1 by (rule same_edges_trans)
  ultimately show ?thesis using g3(3) by blast
qed

lemma isValidEdge_iff: "isValidEdge a b \<longleftrightarrow> a \<noteq> b"
  by (auto simp: isValidEdge_def compareTo_def)

lemma addEdge_step:
  assumes wf: "wfP g {}"
  shows "\<exists>p g'. addEdge place g a b = Some (p, g') \<and> wfP g' {} \<and>
           edge_set (edges g') = edge_set (edges g) \<union> sym_edge a b \<and>
           (a = b \<longrightarrow> p = Null) \<and>
           (a \<noteq> b \<longrightarrow> (\<exists>i. p = Ptr i \<and> i < length (edges g') \<and>
                he_orig (edges g' ! i) = a \<and> dest_of (edges g') i = b)) \<and>
           (a = b \<or> (a, b) \<in> edge_set (edges g) \<longrightarrow> g' = g)"
proof (cases "a = b")
  case True
  with wf show ?thesis by (simp add: addEdge_def isValidEdge_iff sym_edge_def)
next
  case ne: False
  let ?h = "edges g"
  let ?eAdj = "case map_find (vertexMap g) a of None \<Rightarrow> Null | Some p \<Rightarrow> p"
  from wf have l: "linked ?h" and ro: "rings_ok g {}" and ko: "keys_ok g {}"
    by (simp_all add: wfP_def)
  have "\<exists>r. (if ?eAdj \<noteq> Null then HalfEdge_find ?h ?eAdj b else Some Null) = Some r \<and>
           (r = Null \<longrightarrow> (a, b) \<notin> edge_set ?h) \<and>
           (\<forall>i. r = Ptr i \<longrightarrow> i < length ?h \<and> he_orig (?h ! i) = a \<and> dest_of ?h i = b)"
  proof (cases "map_find (vertexMap g) a")
    case None
    with ko have "(a, b) \<notin> edge_set ?h" by (auto simp: edge_set_iff keys_ok_def)
    with None show ?thesis by simp
  next
    case (Some p)
    with ro have "p \<noteq> Null" by (auto dest: rings_ok_not_Null)
    with find_wf [OF wf Some, of b] Some show ?thesis by simp
  qed
  then obtain r where r: "(if ?eAdj \<noteq> Null then HalfEdge_find ?h ?eAdj b else Some Null) = Some r"
    "r = Null \<longrightarrow> (a, b) \<notin> edge_set ?h"
    "\<forall>i. r = Ptr i \<longrightarrow> i < length ?h \<and> he_orig (?h ! i) = a \<and> dest_of ?h i = b"
    by blast
  have add: "addEdge place g a b =
      (if r \<noteq> Null then Some (r, g) else EdgeGraph_insert place g a b ?eAdj)"
    using ne r(1) by (simp add: addEdge_def isValidEdge_iff Let_def)
  show ?thesis
  proof (cases r)
    case Null
    with r(2) have new: "(a, b) \<notin> edge_set ?h" by simp
    from insert_wf [OF wf ne new, of place] obtain g' where
      g': "EdgeGraph_insert place g a b ?eAdj = Some (Ptr (length ?h), g')" "wfP g' {}"
      "same_edges (edges g') (fresh_pair ?h a b)" by blast
    from g'(3) have es: "edge_set (edges g') = edge_set ?h \<union> sym_edge a b"
      using ne by (simp add: edge_set_same edge_set_fresh_pair [OF l] sym_edge_def)
    from g'(3) have "length ?h < length (edges g')" "he_orig (edges g' ! length ?h) = a"
      "dest_of (edges g') (length ?h) = b"
      by (simp_all add: same_edges_dest dest_of_fresh_pair [OF l])
        (simp_all add: same_edges_def fresh_pair_simps)
    with add Null g'(1,2) es ne new show ?thesis by simp
  next
    case (Ptr i)
    with r(3) have i: "i < length ?h" "he_orig (?h ! i) = a" "dest_of ?h i = b" by simp_all
    then have ab: "(a, b) \<in> edge_set ?h" by (auto simp: edge_set_iff)
    with l have "(b, a) \<in> edge_set ?h" by (rule edge_set_sym)
    with ab have "edge_set ?h = edge_set ?h \<union> sym_edge a b" by (auto simp: sym_edge_def)
    with add Ptr wf i ne show ?thesis by simp
  qed
qed

subsection \<open>Sequences of calls\<close>

lemma inserted_iff: "(a, b) \<in> inserted ops \<longleftrightarrow> a \<noteq> b \<and> ((a, b) \<in> set ops \<or> (b, a) \<in> set ops)"
  by (simp add: inserted_def)

lemma inserted_Cons: "inserted ((a, b) # ops) = sym_edge a b \<union> inserted ops"
  by (auto simp: inserted_def sym_edge_def)

lemma set_neighbours: "set (neighbours ops v) = {w. (v, w) \<in> inserted ops}"
  by (induction ops v rule: neighbours.induct) (auto simp: inserted_iff)

lemma half_edge_iff:
  assumes "linked h"
  shows "half_edge h p a b \<longleftrightarrow> (\<exists>i<length h. p = Ptr i \<and> he_orig (h ! i) = a \<and> dest_of h i = b)"
proof
  assume "half_edge h p a b"
  then show "\<exists>i<length h. p = Ptr i \<and> he_orig (h ! i) = a \<and> dest_of h i = b"
    by (cases p; cases "he_sym (h ! addr p)")
       (auto simp: half_edge_def deref_def dest_of_def split: if_splits)
next
  assume "\<exists>i<length h. p = Ptr i \<and> he_orig (h ! i) = a \<and> dest_of h i = b"
  then obtain i where i: "i < length h" "p = Ptr i" "he_orig (h ! i) = a" "dest_of h i = b" by blast
  from assms i(1) obtain j where "j < length h" "he_sym (h ! i) = Ptr j" "he_orig (h ! j) = dest_of h i"
    by (rule linked_flip)
  with i show "half_edge h p a b" by (simp add: half_edge_def deref_Ptr)
qed

lemma wfP_empty: "wfP empty_graph {}"
  by (simp add: wfP_def empty_graph_def map_ok_def linked_def no_dup_def rings_ok_def
      keys_ok_def pending_ok_def)

lemma addEdges_wf:
  "wfP g {} \<Longrightarrow> \<exists>g'. addEdges place g ops = Some g' \<and> wfP g' {} \<and>
     edge_set (edges g') = edge_set (edges g) \<union> inserted ops"
proof (induction ops arbitrary: g)
  case Nil
  then show ?case by (simp add: inserted_def)
next
  case (Cons x ops)
  obtain a b where x: "x = (a, b)" by (cases x)
  from addEdge_step [OF Cons.prems, of place a b] obtain p g1 where
    s: "addEdge place g a b = Some (p, g1)" "wfP g1 {}"
    "edge_set (edges g1) = edge_set (edges g) \<union> sym_edge a b" by blast
  from Cons.IH [OF s(2)] obtain g' where "addEdges place g1 ops = Some g'" "wfP g' {}"
    "edge_set (edges g') = edge_set (edges g1) \<union> inserted ops" by blast
  with s show ?case by (auto simp: x inserted_Cons)
qed

lemma reachable_wf:
  assumes "addEdges place empty_graph ops = Some g"
  shows "wfP g {}" and "edge_set (edges g) = inserted ops"
  using addEdges_wf [OF wfP_empty, of place ops] assms
  by (auto simp: edge_set_def empty_graph_def)

lemma addEdges_total: "\<exists>g. addEdges place empty_graph ops = Some g"
  using addEdges_wf [OF wfP_empty, of place ops] by blast

lemma findEdge_wf:
  assumes wf: "wfP g {}" and i: "i < length (edges g)"
  shows "findEdge g (he_orig (edges g ! i)) (dest_of (edges g) i) = Some (Ptr i)"
proof -
  let ?h = "edges g" and ?a = "he_orig (edges g ! i)" and ?b = "dest_of (edges g) i"
  from wf have nd: "no_dup ?h" and ro: "rings_ok g {}" and ko: "keys_ok g {}"
    by (simp_all add: wfP_def)
  from ko i obtain p where p: "map_find (vertexMap g) ?a = Some p" by (auto simp: keys_ok_def)
  with ro have pn: "p \<noteq> Null" by (auto dest: rings_ok_not_Null)
  from find_wf [OF wf p, of ?b] obtain r where r: "HalfEdge_find ?h p ?b = Some r"
    "r = Null \<longrightarrow> (?a, ?b) \<notin> edge_set ?h"
    "\<forall>k. r = Ptr k \<longrightarrow> k < length ?h \<and> he_orig (?h ! k) = ?a \<and> dest_of ?h k = ?b" by blast
  from i have "(?a, ?b) \<in> edge_set ?h" by (auto simp: edge_set_iff)
  with r(2) obtain k where k: "r = Ptr k" by (cases r) auto
  with r(3) have "k < length ?h" "he_orig (?h ! k) = ?a" "dest_of ?h k = ?b" by simp_all
  with nd i have "k = i" unfolding no_dup_def by blast
  with r(1) k p pn show ?thesis by (simp add: findEdge_def)
qed

lemma follow_ring:
  assumes r: "is_ring h ps"
  shows "i < length ps \<Longrightarrow> follow h k (Ptr (ps ! i)) = Some (Ptr (ps ! ((i + k) mod length ps)))"
proof (induction k arbitrary: i)
  case 0
  then show ?case by simp
next
  case (Suc k)
  from r have c: "chain h ps (hd ps)" and ne: "ps \<noteq> []" by (simp_all add: is_ring_def)
  from c Suc.prems have b: "ps ! i < length h" by (auto intro: chain_bound)
  from c Suc.prems have "he_next (h ! (ps ! i)) = Ptr ((ps @ [hd ps]) ! Suc i)" by (rule chain_nth)
  also have "(ps @ [hd ps]) ! Suc i = ps ! (Suc i mod length ps)"
  proof (cases "Suc i < length ps")
    case True
    then show ?thesis by (simp add: nth_append)
  next
    case False
    with Suc.prems have "Suc i = length ps" by simp
    with ne show ?thesis by (simp add: nth_append hd_conv_nth)
  qed
  finally have nx: "he_next (h ! (ps ! i)) = Ptr (ps ! (Suc i mod length ps))" .
  from ne have "Suc i mod length ps < length ps" by simp
  from Suc.IH [OF this] have "follow h k (Ptr (ps ! (Suc i mod length ps))) =
      Some (Ptr (ps ! ((Suc i mod length ps + k) mod length ps)))" .
  also have "(Suc i mod length ps + k) mod length ps = (i + Suc k) mod length ps"
    by (simp add: mod_add_left_eq)
  finally show ?case using b nx by (simp add: deref_Ptr)
qed

lemma ring_degree:
  assumes wf: "wfP g {}" and es: "edge_set (edges g) = inserted ops"
    and ps: "set ps = members (edges g) v {}" "distinct ps"
  shows "length ps = degree ops v"
proof -
  let ?h = "edges g"
  from wf have nd: "no_dup ?h" by (simp add: wfP_def)
  have "inj_on (dest_of ?h) (set ps)"
    using nd unfolding inj_on_def ps(1) members_def no_dup_def by auto
  then have "card (dest_of ?h ` set ps) = card (set ps)" by (rule card_image)
  moreover have "dest_of ?h ` set ps = {w. (v, w) \<in> edge_set ?h}"
    unfolding ps(1) by (auto simp: members_def edge_set_iff)
  ultimately have "card {w. (v, w) \<in> inserted ops} = length ps"
    using ps(2) es by (simp add: distinct_card)
  then show ?thesis by (simp add: degree_def length_remdups_card_conv set_neighbours)
qed

subsection \<open>The concrete graph\<close>

lemmas model_defs = addEdge_def isValidEdge_def compareTo_def empty_graph_def EdgeGraph_insert_def
  create_def createEdge_def HalfEdge_link_def HalfEdge_new_def deref_def store_def
  HalfEdge_insert_def insertAfter_def HalfEdge_find_def HalfEdge_sym_def findEdge_def Let_def
  find_loop_eval ring_loop_eval

lemma reach0: "addEdges place0 empty_graph ops0 = Some graph0"
  by (simp add: ops0_def graph0_def place0_def model_defs)

subsection \<open>Uniqueness of half-edges\<close>

lemma no_dup_unique:
  assumes "wfP g {}" "half_edge (edges g) p a b" "half_edge (edges g) q a b"
  shows "q = p"
proof -
  from assms(1) have l: "linked (edges g)" and nd: "no_dup (edges g)" by (simp_all add: wfP_def)
  from assms(2,3) obtain i j where "i < length (edges g)" "p = Ptr i" "he_orig (edges g ! i) = a"
    "dest_of (edges g) i = b" "j < length (edges g)" "q = Ptr j" "he_orig (edges g ! j) = a"
    "dest_of (edges g) j = b"
    unfolding half_edge_iff [OF l] by blast
  with nd show ?thesis unfolding no_dup_def by metis
qed

lemma present_iff:
  assumes "wfP g {}"
  shows "(\<exists>q. half_edge (edges g) q a b) \<longleftrightarrow> (a, b) \<in> edge_set (edges g)"
proof -
  from assms have l: "linked (edges g)" by (simp add: wfP_def)
  show ?thesis unfolding half_edge_iff [OF l] edge_set_iff by blast
qed

subsection \<open>getVertexEdges\<close>

lemma fold_push_back: "fold (\<lambda>it out. out @ [snd it]) m out = out @ map snd m"
  by (induction m arbitrary: out) simp_all

lemma map_find_keys:
  "distinct (map fst m) \<Longrightarrow> map (map_find m) (map fst m) = map Some (map snd m)"
proof (induction m)
  case Nil
  show ?case by simp
next
  case (Cons x m)
  obtain k v where x: "x = (k, v)" by (cases x)
  from Cons.prems have "k \<notin> fst ` set m" "distinct (map fst m)" by (simp_all add: x)
  then have "map (map_find ((k, v) # m)) (map fst m) = map (map_find m) (map fst m)"
    by (intro map_cong) auto
  with Cons.IH \<open>distinct (map fst m)\<close> show ?case by (simp add: x)
qed

section \<open>The claims\<close>

text \<open>
  A graph state is one that a caller can build: the result of a list \<open>ops\<close> of
  \<open>addEdge\<close> calls on the empty graph. By \<open>addEdges_total\<close> every such list has
  a result, for every ordering rule \<open>place\<close>.
\<close>

text \<open>
  C1. addEdge is idempotent: when an edge between \<open>a\<close> and \<open>b\<close> is present, in
  either direction (as a stored half-edge, or as an earlier call), \<open>addEdge a b\<close>
  returns the one stored half-edge from \<open>a\<close> to \<open>b\<close> and leaves the graph, that is
  the store of half-edges and the vertex map, as it was.
\<close>

theorem c1_addEdge_idempotent:
  assumes "addEdges place empty_graph ops = Some g" and "a \<noteq> b"
    and "(\<exists>q. half_edge (edges g) q a b) \<or> (\<exists>q. half_edge (edges g) q b a)
         \<or> (a, b) \<in> set ops \<or> (b, a) \<in> set ops"
  shows "\<exists>p. addEdge place g a b = Some (p, g) \<and> half_edge (edges g) p a b \<and>
           (\<forall>q. half_edge (edges g) q a b \<longrightarrow> q = p)"
proof -
  from assms(1) have wf: "wfP g {}" and es: "edge_set (edges g) = inserted ops"
    by (rule reachable_wf)+
  from wf have l: "linked (edges g)" by (simp add: wfP_def)
  have "(a, b) \<in> edge_set (edges g) \<or> (b, a) \<in> edge_set (edges g)"
    using assms(2,3) unfolding present_iff [OF wf] es inserted_iff by auto
  with l have ab: "(a, b) \<in> edge_set (edges g)" by (auto intro: edge_set_sym)
  from addEdge_step [OF wf, of place a b] obtain p g' where
    s: "addEdge place g a b = Some (p, g')"
    "a \<noteq> b \<longrightarrow> (\<exists>i. p = Ptr i \<and> i < length (edges g') \<and>
        he_orig (edges g' ! i) = a \<and> dest_of (edges g') i = b)"
    "a = b \<or> (a, b) \<in> edge_set (edges g) \<longrightarrow> g' = g" by blast
  from s(3) ab have g': "g' = g" by simp
  from s(2) assms(2) have he: "half_edge (edges g) p a b"
    unfolding g' half_edge_iff [OF l] by blast
  with wf have "\<forall>q. half_edge (edges g) q a b \<longrightarrow> q = p" by (blast intro: no_dup_unique)
  with s(1) he show ?thesis unfolding g' by blast
qed

theorem c1_addEdge_idempotent_witness:
  "addEdges place0 empty_graph ops0 = Some graph0 \<and> (1::nat) \<noteq> 0 \<and> (0, 1) \<in> set ops0 \<and>
   addEdge place0 graph0 1 0 = Some (Ptr 1, graph0) \<and> half_edge (edges graph0) (Ptr 1) 1 0"
proof -
  have "(\<exists>q. half_edge (edges graph0) q 1 0) \<or> (\<exists>q. half_edge (edges graph0) q 0 1)
         \<or> (1, 0) \<in> set ops0 \<or> (0, 1) \<in> set ops0"
    by (simp add: ops0_def)
  with c1_addEdge_idempotent [OF reach0, of 1 0] show ?thesis
    by (simp add: reach0) (simp add: ops0_def graph0_def place0_def half_edge_def model_defs)
qed

text \<open>
  C2. Symmetry of insertion: for distinct \<open>a\<close> and \<open>b\<close>, \<open>addEdge a b\<close> returns,
  and afterwards \<open>findEdge a b\<close> and \<open>findEdge b a\<close> both return a half-edge, not
  null, and each of the two is the \<open>sym\<close> of the other. (The first of them is the
  half-edge that \<open>addEdge\<close> returned.)
\<close>

theorem c2_insertion_symmetry:
  assumes "addEdges place empty_graph ops = Some g" and "a \<noteq> b"
  shows "\<exists>p s g'. addEdge place g a b = Some (p, g') \<and>
           findEdge g' a b = Some p \<and> findEdge g' b a = Some s \<and> p \<noteq> Null \<and> s \<noteq> Null \<and>
           HalfEdge_sym (edges g') p = Some s \<and> HalfEdge_sym (edges g') s = Some p"
proof -
  from assms(1) have wf: "wfP g {}" by (rule reachable_wf)
  from addEdge_step [OF wf, of place a b] assms(2) obtain i g' where
    s: "addEdge place g a b = Some (Ptr i, g')" "wfP g' {}" "i < length (edges g')"
    "he_orig (edges g' ! i) = a" "dest_of (edges g') i = b" by blast
  let ?h = "edges g'"
  from s(2) have l: "linked ?h" by (simp add: wfP_def)
  from l s(3) obtain j where j: "j < length ?h" "he_sym (?h ! i) = Ptr j" "he_sym (?h ! j) = Ptr i"
    "he_orig (?h ! j) = dest_of ?h i" "dest_of ?h j = he_orig (?h ! i)" by (rule linked_flip)
  from findEdge_wf [OF s(2,3)] have "findEdge g' a b = Some (Ptr i)" by (simp add: s)
  moreover from findEdge_wf [OF s(2) j(1)] have "findEdge g' b a = Some (Ptr j)"
    by (simp add: j s)
  moreover have "HalfEdge_sym ?h (Ptr i) = Some (Ptr j)" "HalfEdge_sym ?h (Ptr j) = Some (Ptr i)"
    using s(3) j by (simp_all add: HalfEdge_sym_def deref_Ptr)
  ultimately show ?thesis using s(1) by blast
qed

theorem c2_insertion_symmetry_witness:
  "addEdges place0 empty_graph ops0 = Some graph0 \<and> (0::nat) \<noteq> 3 \<and>
   (\<exists>g'. addEdge place0 graph0 0 3 = Some (Ptr 6, g') \<and>
      findEdge g' 0 3 = Some (Ptr 6) \<and> findEdge g' 3 0 = Some (Ptr 7) \<and>
      HalfEdge_sym (edges g') (Ptr 6) = Some (Ptr 7) \<and>
      HalfEdge_sym (edges g') (Ptr 7) = Some (Ptr 6))"
  using c2_insertion_symmetry [OF reach0, of 0 3]
  by (simp add: reach0) (simp add: graph0_def place0_def model_defs)

text \<open>
  C3. A degenerate edge is rejected without mutation: in every state of the graph,
  well formed or not, \<open>addEdge p p\<close> returns null and the graph it leaves is the
  graph it was given.
\<close>

theorem c3_degenerate_rejected:
  "addEdge place g p p = Some (Null, g)"
  by (simp add: addEdge_def isValidEdge_def compareTo_def)

theorem c3_degenerate_rejected_witness:
  "addEdge place0 graph0 2 2 = Some (Null, graph0)"
  by (rule c3_degenerate_rejected)

text \<open>
  C4. Ring closure: in a graph built by the calls \<open>ops\<close>, let \<open>p\<close> be the half-edge
  that the vertex map holds for \<open>v\<close>. Following \<open>next\<close> from \<open>p\<close> comes back to \<open>p\<close>
  after \<open>degree ops v\<close> steps, and after no smaller positive number of steps; the
  degree is at least one.
\<close>

theorem c4_ring_closure:
  assumes "addEdges place empty_graph ops = Some g" and "map_find (vertexMap g) v = Some p"
  shows "0 < degree ops v \<and> follow (edges g) (degree ops v) p = Some p \<and>
         (\<forall>k. 0 < k \<and> k < degree ops v \<longrightarrow> follow (edges g) k p \<noteq> Some p)"
proof -
  from assms(1) have wf: "wfP g {}" and es: "edge_set (edges g) = inserted ops"
    by (rule reachable_wf)+
  from wf have "rings_ok g {}" by (simp add: wfP_def)
  with assms(2) obtain ps where ps: "p = Ptr (hd ps)" "is_ring (edges g) ps"
    "set ps = members (edges g) v {}" unfolding rings_ok_def by blast
  from ps(2) have ne: "ps \<noteq> []" and d: "distinct ps" by (simp_all add: is_ring_def)
  from wf es ps(3) d have len: "length ps = degree ops v" by (rule ring_degree)
  from ne have p0: "p = Ptr (ps ! 0)" and pos: "0 < length ps" by (simp_all add: ps(1) hd_conv_nth)
  have fo: "follow (edges g) k p = Some (Ptr (ps ! (k mod length ps)))" for k
    using follow_ring [OF ps(2) pos, of k] by (simp add: p0)
  have "follow (edges g) k p \<noteq> Some p" if "0 < k" "k < length ps" for k
  proof -
    from d that pos have "ps ! k \<noteq> ps ! 0" by (simp add: nth_eq_iff_index_eq)
    with that show ?thesis by (simp add: fo) (simp add: p0)
  qed
  moreover have "follow (edges g) (length ps) p = Some p" by (simp add: fo) (simp add: p0)
  ultimately show ?thesis using pos by (simp add: len)
qed

theorem c4_ring_closure_witness:
  "addEdges place0 empty_graph ops0 = Some graph0 \<and> map_find (vertexMap graph0) 0 = Some (Ptr 0) \<and>
   degree ops0 0 = 2 \<and> follow (edges graph0) 2 (Ptr 0) = Some (Ptr 0) \<and>
   follow (edges graph0) 1 (Ptr 0) \<noteq> Some (Ptr 0)"
proof -
  have m: "map_find (vertexMap graph0) 0 = Some (Ptr 0)" by (simp add: graph0_def)
  have d: "degree ops0 0 = 2" by (simp add: degree_def ops0_def)
  from c4_ring_closure [OF reach0 m]
  have c: "follow (edges graph0) (degree ops0 0) (Ptr 0) = Some (Ptr 0)"
    and n: "\<forall>k. 0 < k \<and> k < degree ops0 0 \<longrightarrow> follow (edges graph0) k (Ptr 0) \<noteq> Some (Ptr 0)"
    by blast+
  from n [rule_format, of 1] have "follow (edges graph0) 1 (Ptr 0) \<noteq> Some (Ptr 0)"
    by (simp add: d)
  with c reach0 m d show ?thesis by simp
qed

text \<open>
  C5. Vertex-map invariant: in a graph built by the calls \<open>ops\<close> the vertex map has
  no key twice; every key is an end point of a non-degenerate edge among the calls;
  and the pointer stored under a key points to a half-edge whose origin is the key.
\<close>

theorem c5_vertexMap_invariant:
  assumes "addEdges place empty_graph ops = Some g"
  shows "distinct (map fst (vertexMap g)) \<and>
         (\<forall>(v, p) \<in> set (vertexMap g).
            (\<exists>(a, b) \<in> set ops. a \<noteq> b \<and> (v = a \<or> v = b)) \<and>
            (\<exists>e. deref (edges g) p = Some e \<and> he_orig e = v))"
proof -
  from assms(1) have wf: "wfP g {}" and es: "edge_set (edges g) = inserted ops"
    by (rule reachable_wf)+
  from wf have ro: "rings_ok g {}" and mo: "map_ok (vertexMap g)" by (simp_all add: wfP_def)
  from mo have "distinct (map fst (vertexMap g))"
    unfolding map_ok_def by (simp add: strict_sorted_iff)
  moreover have "(\<exists>(a, b) \<in> set ops. a \<noteq> b \<and> (v = a \<or> v = b)) \<and>
      (\<exists>e. deref (edges g) p = Some e \<and> he_orig e = v)" if "(v, p) \<in> set (vertexMap g)" for v p
  proof -
    from mo that have "map_find (vertexMap g) v = Some p" by (rule map_ok_mem_find)
    with ro obtain ps where ps: "p = Ptr (hd ps)" "is_ring (edges g) ps"
      "set ps = members (edges g) v {}" unfolding rings_ok_def by blast
    from ps(2) have "hd ps \<in> set ps" by (simp add: is_ring_def)
    with ps(3) have h: "hd ps < length (edges g)" "he_orig (edges g ! hd ps) = v"
      by (simp_all add: members_def)
    then have "(v, dest_of (edges g) (hd ps)) \<in> edge_set (edges g)" by (auto simp: edge_set_iff)
    then have "\<exists>(a, b) \<in> set ops. a \<noteq> b \<and> (v = a \<or> v = b)"
      unfolding es inserted_iff by auto
    with h show ?thesis by (simp add: ps(1) deref_Ptr)
  qed
  ultimately show ?thesis by blast
qed

theorem c5_vertexMap_invariant_witness:
  "addEdges place0 empty_graph ops0 = Some graph0 \<and> distinct (map fst (vertexMap graph0)) \<and>
   (2, Ptr 3) \<in> set (vertexMap graph0) \<and> (0, 2) \<in> set ops0 \<and>
   (\<exists>e. deref (edges graph0) (Ptr 3) = Some e \<and> he_orig e = 2)"
proof -
  have m: "(2, Ptr 3) \<in> set (vertexMap graph0)" by (simp add: graph0_def)
  from c5_vertexMap_invariant [OF reach0] m
  have "distinct (map fst (vertexMap graph0))"
    "\<exists>e. deref (edges graph0) (Ptr 3) = Some e \<and> he_orig e = 2" by blast+
  with reach0 m show ?thesis by (simp add: ops0_def)
qed

text \<open>
  C6. The value of addEdge: for distinct \<open>a\<close> and \<open>b\<close>, \<open>addEdge a b\<close> returns a
  pointer to a half-edge with origin \<open>a\<close> whose \<open>sym\<close> has origin \<open>b\<close>, whether the
  edge is new or was there before.
\<close>

theorem c6_addEdge_result:
  assumes "addEdges place empty_graph ops = Some g" and "a \<noteq> b"
  shows "\<exists>p g'. addEdge place g a b = Some (p, g') \<and> half_edge (edges g') p a b"
proof -
  from assms(1) have wf: "wfP g {}" by (rule reachable_wf)
  from addEdge_step [OF wf, of place a b] assms(2) obtain i g' where
    s: "addEdge place g a b = Some (Ptr i, g')" "wfP g' {}" "i < length (edges g')"
    "he_orig (edges g' ! i) = a" "dest_of (edges g') i = b" by blast
  from s(2) have "linked (edges g')" by (simp add: wfP_def)
  from half_edge_iff [OF this] s(3-5) have "half_edge (edges g') (Ptr i) a b" by blast
  with s(1) show ?thesis by blast
qed

theorem c6_addEdge_result_witness:
  "addEdges place0 empty_graph ops0 = Some graph0 \<and> (2::nat) \<noteq> 0 \<and> (1::nat) \<noteq> 3 \<and>
   (\<exists>g'. addEdge place0 graph0 2 0 = Some (Ptr 3, g') \<and> half_edge (edges g') (Ptr 3) 2 0) \<and>
   (\<exists>g'. addEdge place0 graph0 1 3 = Some (Ptr 6, g') \<and> half_edge (edges g') (Ptr 6) 1 3)"
  using c6_addEdge_result [OF reach0, of 2 0] c6_addEdge_result [OF reach0, of 1 3]
  by (simp add: reach0) (simp add: graph0_def place0_def half_edge_def model_defs)

text \<open>
  C7. findEdge: in every state of the graph, when the origin is not a key of the
  vertex map the result is null; when the map holds a half-edge for the origin, the
  result is that of \<open>HalfEdge::find\<close> on this half-edge. (The code also answers
  null for a key whose entry is the null pointer; no call stores such an entry.)
\<close>

theorem c7_findEdge_semantics:
  "findEdge g a b =
     (case map_find (vertexMap g) a of
        None \<Rightarrow> Some Null
      | Some Null \<Rightarrow> Some Null
      | Some (Ptr i) \<Rightarrow> HalfEdge_find (edges g) (Ptr i) b)"
  by (simp add: findEdge_def split: option.splits ptr.splits)

theorem c7_findEdge_semantics_witness:
  "findEdge graph0 7 1 = Some Null \<and>
   findEdge graph0 2 1 = HalfEdge_find (edges graph0) (Ptr 3) 1"
  using c7_findEdge_semantics [of graph0 7 1] c7_findEdge_semantics [of graph0 2 1]
  by (simp add: graph0_def)

text \<open>
  C8. Totality of addEdge: on a graph built by calls of \<open>addEdge\<close>, every call
  \<open>addEdge a b\<close> returns; the pointer it returns is null exactly when \<open>b\<close> compares
  equal to \<open>a\<close>, that is when \<open>a = b\<close>.
\<close>

theorem c8_addEdge_total:
  assumes "addEdges place empty_graph ops = Some g"
  shows "\<exists>p g'. addEdge place g a b = Some (p, g') \<and>
           (p = Null \<longleftrightarrow> compareTo b a = 0) \<and> (compareTo b a = 0 \<longleftrightarrow> a = b)"
proof -
  from assms(1) have wf: "wfP g {}" by (rule reachable_wf)
  have c: "compareTo b a = 0 \<longleftrightarrow> a = b" by (auto simp: compareTo_def)
  from addEdge_step [OF wf, of place a b] obtain p g' where
    "addEdge place g a b = Some (p, g')" "a = b \<longrightarrow> p = Null"
    "a \<noteq> b \<longrightarrow> (\<exists>i. p = Ptr i)" by blast
  then show ?thesis unfolding c by (cases "a = b") auto
qed

theorem c8_addEdge_total_witness:
  "addEdges place0 empty_graph ops0 = Some graph0 \<and>
   (\<exists>g'. addEdge place0 graph0 3 1 = Some (Ptr 6, g')) \<and>
   (\<exists>g'. addEdge place0 graph0 3 3 = Some (Null, g'))"
  using c8_addEdge_total [OF reach0, of 3 1] c8_addEdge_total [OF reach0, of 3 3]
  by (simp add: reach0) (simp add: graph0_def place0_def model_defs)

text \<open>
  C9. getVertexEdges enumerates the vertex map: called with an empty vector on a
  graph whose vertex map is a map (its keys ascending, none twice), it yields for
  each key, once and in key order, the pointer stored under the key; so it yields as
  many pointers as there are keys.
\<close>

theorem c9_getVertexEdges_enumerates:
  assumes "map_ok (vertexMap g)"
  shows "map Some (fst (getVertexEdges g [])) =
           map (map_find (vertexMap g)) (sorted_list_of_set (fst ` set (vertexMap g)))
         \<and> length (fst (getVertexEdges g [])) = card (fst ` set (vertexMap g))"
proof -
  let ?ks = "map fst (vertexMap g)"
  from assms have ss: "sorted ?ks" "distinct ?ks"
    unfolding map_ok_def by (simp_all add: strict_sorted_iff)
  then have "sorted_list_of_set (set ?ks) = ?ks"
    by (rule sorted_list_of_set.idem_if_sorted_distinct)
  then have k: "sorted_list_of_set (fst ` set (vertexMap g)) = ?ks" by simp
  have out: "fst (getVertexEdges g []) = map snd (vertexMap g)"
    by (simp add: getVertexEdges_def fold_push_back)
  have c: "card (fst ` set (vertexMap g)) = length (vertexMap g)"
    using distinct_card [OF ss(2)] by simp
  show ?thesis
    unfolding k out map_find_keys [OF ss(2)] c by simp
qed

theorem c9_getVertexEdges_enumerates_witness:
  "map_ok (vertexMap graph0) \<and> fst (getVertexEdges graph0 []) = [Ptr 0, Ptr 1, Ptr 3] \<and>
   map (map_find (vertexMap graph0)) [0, 1, 2] = [Some (Ptr 0), Some (Ptr 1), Some (Ptr 3)]"
proof -
  have m: "map_ok (vertexMap graph0)" by (simp add: graph0_def map_ok_def)
  from c9_getVertexEdges_enumerates [OF m] m show ?thesis
    by (simp add: graph0_def getVertexEdges_def)
qed

text \<open>
  C10. getVertexEdges appends: in every state of the graph and for every content
  of the output vector, the vector afterwards is its former content followed by the
  pointers of the vertex map, which are what the call yields on an empty vector;
  the graph is unchanged.
\<close>

theorem c10_getVertexEdges_appends:
  "getVertexEdges g out = (out @ map snd (vertexMap g), g) \<and>
   fst (getVertexEdges g out) = out @ fst (getVertexEdges g []) \<and>
   snd (getVertexEdges g out) = g"
  by (simp add: getVertexEdges_def fold_push_back)

theorem c10_getVertexEdges_appends_witness:
  "getVertexEdges graph0 [Null, Ptr 4] = ([Null, Ptr 4, Ptr 0, Ptr 1, Ptr 3], graph0)"
  using c10_getVertexEdges_appends [of graph0 "[Null, Ptr 4]"]
  by (simp add: graph0_def)

end
